theory Spec2Isabelle
  imports Complex_Main
begin

section \<open>The SEC data layer: TTL cache, rate limiter, retrying session\<close>

text \<open>
  The three pieces of the SEC data pipeline are embedded as pure functions over an explicit
  clock. \<^verbatim>\<open>time.time()\<close> is a parameter \<open>now\<close> (seconds, an exact real in place of
  the Python float), \<^verbatim>\<open>time.sleep(d)\<close> moves the clock forward by \<open>d\<close>, and every mutation
  of \<^verbatim>\<open>self.cache\<close> or \<^verbatim>\<open>last_called[0]\<close> returns the updated state.
\<close>

subsection \<open>SECDataCache\<close>

text \<open>
  \<^verbatim>\<open>
  class SECDataCache:
      def __init__(self, ttl: int = 3600):
          self.cache = {}
          self.ttl = ttl

      def get(self, key: str) -> Optional[Dict]:
          if key in self.cache:
              timestamp, data = self.cache[key]
              if time.time() - timestamp < self.ttl:
                  return data
              else:
                  del self.cache[key]  # Auto-cleanup expired items
          return None
  \<close>
  The dictionary maps a key to the pair \<open>(timestamp, data)\<close>.
\<close>

record 'v SECDataCache =
  cache :: "string \<rightharpoonup> (real \<times> 'v)"
  ttl :: int

definition init :: "int \<Rightarrow> 'v SECDataCache" where
  "init t = \<lparr>cache = Map.empty, ttl = t\<rparr>"

definition get :: "'v SECDataCache \<Rightarrow> string \<Rightarrow> real \<Rightarrow> 'v option \<times> 'v SECDataCache" where
  "get self key now =
     (case cache self key of
        Some (timestamp, data) \<Rightarrow>
          if now - timestamp < real_of_int (ttl self) then (Some data, self)
          else (None, self\<lparr>cache := (cache self)(key := None)\<rparr>)
      | None \<Rightarrow> (None, self))"

text \<open>
  Modelled from the spec: the write path of \<^verbatim>\<open>SECDataCache\<close> is missing from the
  sources (only \<^verbatim>\<open>__init__\<close> and \<^verbatim>\<open>get\<close> are shown). The specification says:
  "put(key, value): stores/overwrites the entry for key with stored_at = now".
\<close>

definition put :: "'v SECDataCache \<Rightarrow> string \<Rightarrow> 'v \<Rightarrow> real \<Rightarrow> 'v SECDataCache" where
  "put self key val now = self\<lparr>cache := (cache self)(key \<mapsto> (now, val))\<rparr>"

subsection \<open>The rate limiter\<close>

text \<open>
  \<^verbatim>\<open>
  def rate_limit(max_calls_per_second: int = DEFAULT_RATE_LIMIT):
      def decorator(func):
          last_called = [0.0]
          min_interval = 1.0 / max_calls_per_second

          @wraps(func)
          def wrapper(*args, **kwargs):
              elapsed = time.time() - last_called[0]
              left_to_wait = min_interval - elapsed
              if left_to_wait > 0:
                  time.sleep(left_to_wait)
              result = func(*args, **kwargs)
              last_called[0] = time.time()
              return result
          return wrapper
      return decorator
  \<close>
  The closure of \<^verbatim>\<open>wrapper\<close> is the record \<open>limiter\<close>: the one-element list
  \<^verbatim>\<open>last_called\<close> and the constant \<^verbatim>\<open>min_interval\<close>. A wrapped operation receives its
  arguments and the clock at the moment it is entered, and gives back either an exception
  (\<open>Inl\<close>) or a result (\<open>Inr\<close>), together with the clock at the moment it is left.
\<close>

datatype py_error = ZeroDivisionError

record limiter =
  last_called :: real
  min_interval :: real

type_synonym ('a, 'e, 'r) operation = "'a \<Rightarrow> real \<Rightarrow> ('e + 'r) \<times> real"

text \<open>Decorating: \<^verbatim>\<open>1.0 / max_calls_per_second\<close> raises when the rate is zero.\<close>

definition decorator :: "int \<Rightarrow> py_error + limiter" where
  "decorator max_calls_per_second =
     (if max_calls_per_second = 0 then Inl ZeroDivisionError
      else Inr \<lparr>last_called = 0, min_interval = 1 / real_of_int max_calls_per_second\<rparr>)"

definition sleep :: "real \<Rightarrow> real \<Rightarrow> real" where
  "sleep seconds now = now + seconds"

text \<open>The first four statements of \<^verbatim>\<open>wrapper\<close>: the clock at which \<^verbatim>\<open>func\<close> is entered.\<close>

definition throttle :: "limiter \<Rightarrow> real \<Rightarrow> real" where
  "throttle st now =
     (let elapsed = now - last_called st;
          left_to_wait = min_interval st - elapsed
      in if left_to_wait > 0 then sleep left_to_wait now else now)"

text \<open>
  The whole of \<^verbatim>\<open>wrapper\<close>. An exception of \<^verbatim>\<open>func\<close> leaves the function at the call,
  so the assignment to \<^verbatim>\<open>last_called[0]\<close> is reached on a normal return only.
\<close>

definition wrapper ::
  "('a, 'e, 'r) operation \<Rightarrow> 'a \<Rightarrow> limiter \<times> real \<Rightarrow> ('e + 'r) \<times> limiter \<times> real" where
  "wrapper func args s =
     (let (st, now) = s;
          entered = throttle st now;
          (outcome, left) = func args entered
      in case outcome of
           Inl exn \<Rightarrow> (Inl exn, st, left)
         | Inr result \<Rightarrow> (Inr result, st\<lparr>last_called := left\<rparr>, left))"

text \<open>
  A caller invoking the wrapped operation several times, one call after the other. Each
  call comes with the time the caller idles before making it (\<open>0\<close> for back-to-back
  calls); an exception is caught by the caller, who goes on with the next call. The result
  lists the clock at which \<^verbatim>\<open>func\<close> was entered in each call.
\<close>

fun invocations ::
  "('a, 'e, 'r) operation \<Rightarrow> (real \<times> 'a) list \<Rightarrow> limiter \<times> real \<Rightarrow> real list \<times> limiter \<times> real" where
  "invocations func [] s = ([], s)"
| "invocations func ((idle, args) # calls) (st, now) =
     (let entered = throttle st (now + idle);
          (outcome, s') = wrapper func args (st, now + idle);
          (starts, s'') = invocations func calls s'
      in (entered # starts, s''))"

text \<open>Whether every call of such a sequence returns normally.\<close>

fun all_return ::
  "('a, 'e, 'r) operation \<Rightarrow> (real \<times> 'a) list \<Rightarrow> limiter \<times> real \<Rightarrow> bool" where
  "all_return func [] s = True"
| "all_return func ((idle, args) # calls) (st, now) =
     (case wrapper func args (st, now + idle) of
        (Inl exn, s') \<Rightarrow> False
      | (Inr result, s') \<Rightarrow> all_return func calls s')"

subsection \<open>The session with retries\<close>

text \<open>
  \<^verbatim>\<open>
  def create_session_with_retries() -> requests.Session:
      session = requests.Session()
      retry_strategy = Retry(
          total=3,
          status_forcelist=[429, 500, 502, 503, 504],
          allowed_methods=["HEAD", "GET", "OPTIONS"],
          backoff_factor=1
      )
      adapter = HTTPAdapter(max_retries=retry_strategy)
      session.mount("http://", adapter)
      session.mount("https://", adapter)
      return session
  \<close>
  The function only configures the session: a \<open>Retry\<close> value holds the four keyword
  arguments, and the session is the list of its mounts, the latest first.
\<close>

record Retry =
  total :: int
  status_forcelist :: "int list"
  allowed_methods :: "string list"
  backoff_factor :: real

definition retry_strategy :: Retry where
  "retry_strategy =
     \<lparr>total = 3,
      status_forcelist = [429, 500, 502, 503, 504],
      allowed_methods = [''HEAD'', ''GET'', ''OPTIONS''],
      backoff_factor = 1\<rparr>"

definition mount :: "string \<Rightarrow> Retry \<Rightarrow> (string \<times> Retry) list \<Rightarrow> (string \<times> Retry) list" where
  "mount prefix adapter session = (prefix, adapter) # session"

definition create_session_with_retries :: "(string \<times> Retry) list" where
  "create_session_with_retries =
     mount ''https://'' retry_strategy (mount ''http://'' retry_strategy [])"

text \<open>
  Modelled from the spec: the loop that sends a request again is missing from the sources
  (it runs inside the HTTP library the session is built from; the sources hold the
  configuration above only). The specification of the retry-able transport says: it
  "issues a network request and retries up to max_attempts - 1 additional times when the
  response status is in retryable_status_codes or the attempt raises a transient network
  error"; "attempt n (1-indexed) waits backoff_base_seconds * 2^(n-1) before retrying,
  except before the first attempt"; "non-retryable errors (4xx other than 429) propagate
  immediately without consuming additional attempts"; "after max_attempts total attempts
  are exhausted, the last error/response is surfaced to the caller as a failure"; "only
  idempotent methods are eligible for automatic retry". The policy is the specification's
  \<open>RetryPolicy\<close>; the methods eligible for a retry are a parameter. The transport
  answers attempt \<open>n\<close> with \<open>transport n\<close>; the loop keeps every reply it received and
  every wait it made.
\<close>

datatype reply = Status int | NetworkError

datatype failure = RetriesExhausted reply | NotRetried reply

record RetryPolicy =
  max_attempts :: int
  retryable_status_codes :: "int set"
  backoff_base_seconds :: real

definition retryable :: "RetryPolicy \<Rightarrow> reply \<Rightarrow> bool" where
  "retryable p r =
     (case r of Status code \<Rightarrow> code \<in> retryable_status_codes p | NetworkError \<Rightarrow> True)"

definition is_error :: "reply \<Rightarrow> bool" where
  "is_error r = (case r of Status code \<Rightarrow> 400 \<le> code | NetworkError \<Rightarrow> True)"

function send ::
  "RetryPolicy \<Rightarrow> string list \<Rightarrow> string \<Rightarrow> (nat \<Rightarrow> reply) \<Rightarrow> nat \<Rightarrow> reply list \<Rightarrow> real list
   \<Rightarrow> (failure + reply) \<times> reply list \<times> real list" where
  "send p eligible verb transport n replies waits =
     (let r = transport n;
          replies' = replies @ [r]
      in if retryable p r \<and> verb \<in> set eligible then
           if int n < max_attempts p
           then send p eligible verb transport (Suc n) replies'
                  (waits @ [backoff_base_seconds p * 2 ^ (n - 1)])
           else (Inl (RetriesExhausted r), replies', waits)
         else if is_error r then (Inl (NotRetried r), replies', waits)
         else (Inr r, replies', waits))"
  by pat_completeness auto
termination
  by (relation "measure (\<lambda>(p, eligible, verb, transport, n, replies, waits).
        nat (max_attempts p - int n))") auto

declare send.simps [simp del]

definition request ::
  "RetryPolicy \<Rightarrow> string list \<Rightarrow> string \<Rightarrow> (nat \<Rightarrow> reply)
   \<Rightarrow> (failure + reply) \<times> reply list \<times> real list" where
  "request p eligible verb transport = send p eligible verb transport 1 [] []"


subsection \<open>The fetch orchestrator\<close>



subsection \<open>Inputs used in the examples\<close>

text \<open>A cache with two entries, stored at the clocks 100 and 4000, living one hour.\<close>

definition stocked :: "int SECDataCache" where
  "stocked = \<lparr>cache = [''AAPL'' \<mapsto> (100, 7), ''MSFT'' \<mapsto> (4000, 9)], ttl = 3600\<rparr>"

text \<open>
  Two operations taking a hundredth of a second: \<open>steady\<close> always returns, \<open>flaky\<close>
  raises on the argument \<open>0\<close>. \<open>ten_per_second\<close> is the closure that
  \<^verbatim>\<open>rate_limit(10)\<close> starts with.
\<close>

definition steady :: "(nat, string, nat) operation" where
  "steady args entered = (Inr (args * 2), entered + 1 / 100)"

definition flaky :: "(nat, string, nat) operation" where
  "flaky args entered = (if args = 0 then Inl ''boom'' else Inr args, entered + 1 / 100)"

definition ten_per_second :: limiter where
  "ten_per_second = \<lparr>last_called = 0, min_interval = 1 / 10\<rparr>"

text \<open>
  A policy of three attempts on the status codes and the backoff factor of the session, a
  server that is always unavailable, and one that answers 429 twice before it answers 200.
\<close>

definition three_attempts :: RetryPolicy where
  "three_attempts =
     \<lparr>max_attempts = 3,
      retryable_status_codes = set (status_forcelist retry_strategy),
      backoff_base_seconds = backoff_factor retry_strategy\<rparr>"

definition always_503 :: "nat \<Rightarrow> reply" where
  "always_503 n = Status 503"

definition twice_429 :: "nat \<Rightarrow> reply" where
  "twice_429 n = (if n < 3 then Status 429 else Status 200)"








section \<open>Properties\<close>

subsection \<open>The cache\<close>

lemma get_hit: "cache self key = Some (ts, d) \<Longrightarrow> now - ts < real_of_int (ttl self) \<Longrightarrow> get self key now = (Some d, self)"
  by (simp add: get_def)

lemma get_expired: "cache self key = Some (ts, d) \<Longrightarrow> \<not> now - ts < real_of_int (ttl self) \<Longrightarrow>
   get self key now = (None, self\<lparr>cache := (cache self)(key := None)\<rparr>)"
  by (simp add: get_def)

lemma get_absent: "cache self key = None \<Longrightarrow> get self key now = (None, self)"
  by (simp add: get_def)

text \<open>
  Claim C4. For every key and every cache, \<open>get\<close> returns the cached value exactly when
  an entry exists for the key and \<open>now - stored_at < ttl\<close>; otherwise it returns nothing,
  and an entry that exists but has expired (\<open>now - stored_at \<ge> ttl\<close>) is removed by the
  read, so an expired entry is never returned.
\<close>

theorem get_returns_fresh_only:
  "(fst (get self key now) = Some v \<longleftrightarrow>
      (\<exists>ts. cache self key = Some (ts, v) \<and> now - ts < real_of_int (ttl self)))
   \<and> (fst (get self key now) = None \<longleftrightarrow>
      (cache self key = None \<or>
       (\<exists>ts d. cache self key = Some (ts, d) \<and> real_of_int (ttl self) \<le> now - ts)))
   \<and> (\<forall>ts d. cache self key = Some (ts, d) \<and> real_of_int (ttl self) \<le> now - ts \<longrightarrow>
        get self key now = (None, self\<lparr>cache := (cache self)(key := None)\<rparr>)
        \<and> cache (snd (get self key now)) key = None)"
proof (cases "cache self key")
  case None
  then show ?thesis by (simp add: get_absent)
next
  case (Some e)
  obtain ts d where e: "e = (ts, d)" by (cases e)
  show ?thesis
  proof (cases "now - ts < real_of_int (ttl self)")
    case True
    with Some e show ?thesis by (auto simp: get_hit)
  next
    case False
    with Some e show ?thesis by (auto simp: get_expired)
  qed
qed

theorem get_returns_fresh_only_witness:
  "fst (get stocked ''AAPL'' 3699) = Some 7
   \<and> get stocked ''AAPL'' 3700 = (None, stocked\<lparr>cache := (cache stocked)(''AAPL'' := None)\<rparr>)
   \<and> cache (snd (get stocked ''AAPL'' 3700)) ''AAPL'' = None
   \<and> fst (get stocked ''GOOG'' 3700) = None"
proof -
  have e: "cache stocked ''AAPL'' = Some (100, 7)" by (simp add: stocked_def)
  have a: "cache stocked ''GOOG'' = None" by (simp add: stocked_def)
  have f: "(3699::real) - 100 < real_of_int (ttl stocked)" by (simp add: stocked_def)
  have x: "real_of_int (ttl stocked) \<le> (3700::real) - 100" by (simp add: stocked_def)
  from get_returns_fresh_only [of stocked "''AAPL''" 3699 7] e f
  have 1: "fst (get stocked ''AAPL'' 3699) = Some 7" by blast
  from get_returns_fresh_only [of stocked "''AAPL''" 3700 7] e x
  have 2: "get stocked ''AAPL'' 3700 = (None, stocked\<lparr>cache := (cache stocked)(''AAPL'' := None)\<rparr>)
     \<and> cache (snd (get stocked ''AAPL'' 3700)) ''AAPL'' = None" by blast
  from get_returns_fresh_only [of stocked "''GOOG''" 3700 7] a
  have 3: "fst (get stocked ''GOOG'' 3700) = None" by blast
  from 1 2 3 show ?thesis by blast
qed

text \<open>
  Claim C5, as the code has it. \<open>put\<close> stores or overwrites the entry of the key with
  the current clock as its timestamp, so a \<open>get\<close> made less than \<open>ttl\<close> seconds
  after the \<open>put\<close> (right after it, when \<open>ttl\<close> is positive) returns the value, and
  once \<open>ttl\<close> seconds have passed since the \<open>put\<close> the \<open>get\<close> returns nothing.
\<close>

theorem put_then_get:
  "cache (put self key v now) key = Some (now, v)
   \<and> (later - now < real_of_int (ttl self) \<longrightarrow>
        fst (get (put self key v now) key later) = Some v)
   \<and> (0 < ttl self \<longrightarrow> fst (get (put self key v now) key now) = Some v)
   \<and> (real_of_int (ttl self) \<le> later - now \<longrightarrow>
        fst (get (put self key v now) key later) = None)"
  by (simp add: put_def get_def)

theorem put_then_get_witness:
  "cache (put (init 3600) ''AAPL'' (7::int) 100) ''AAPL'' = Some (100, 7)
   \<and> fst (get (put (init 3600) ''AAPL'' (7::int) 100) ''AAPL'' 100) = Some 7
   \<and> fst (get (put (init 3600) ''AAPL'' (7::int) 100) ''AAPL'' 3699) = Some 7
   \<and> fst (get (put (init 3600) ''AAPL'' (7::int) 100) ''AAPL'' 3700) = None"
proof -
  have h: "0 < ttl (init 3600 :: int SECDataCache)" by (simp add: init_def)
  have f: "(3699::real) - 100 < real_of_int (ttl (init 3600 :: int SECDataCache))"
    by (simp add: init_def)
  have e: "real_of_int (ttl (init 3600 :: int SECDataCache)) \<le> 3700 - 100"
    by (simp add: init_def)
  from put_then_get [of "init 3600" "''AAPL''" 7 100 3699] h f
  have 1: "cache (put (init 3600) ''AAPL'' (7::int) 100) ''AAPL'' = Some (100, 7)
     \<and> fst (get (put (init 3600) ''AAPL'' (7::int) 100) ''AAPL'' 100) = Some 7
     \<and> fst (get (put (init 3600) ''AAPL'' (7::int) 100) ''AAPL'' 3699) = Some 7"
    by blast
  from put_then_get [of "init 3600" "''AAPL''" 7 100 3700] e
  have 2: "fst (get (put (init 3600) ''AAPL'' (7::int) 100) ''AAPL'' 3700) = None"
    by blast
  from 1 2 show ?thesis by blast
qed

text \<open>
  Claim C5 fails for a cache whose time to live is zero: the entry is stored with the
  clock 100, and the read at the same clock finds \<open>100 - 100 < 0\<close> false and returns
  nothing.
\<close>

theorem put_then_get_counterexample:
  "cache (put (init 0) ''AAPL'' (7::int) 100) ''AAPL'' = Some (100, 7)
   \<and> fst (get (put (init 0) ''AAPL'' (7::int) 100) ''AAPL'' 100) = None
   \<and> fst (get (put (init 0) ''AAPL'' (7::int) 100) ''AAPL'' 100) \<noteq> Some 7"
  by (simp add: put_def get_def init_def)

text \<open>
  Claim C10. A read leaves every entry of another key as it was; when the entry of the key
  read is fresh or absent the whole cache is unchanged; and after an expired entry has been
  removed the key is absent, so a second read of it returns nothing and changes nothing.
\<close>

theorem get_frame:
  "(key' \<noteq> key \<longrightarrow> cache (snd (get self key now)) key' = cache self key')
   \<and> ((cache self key = None \<or> (\<exists>ts d. cache self key = Some (ts, d) \<and> now - ts < real_of_int (ttl self)))
        \<longrightarrow> snd (get self key now) = self)
   \<and> (\<forall>ts d. cache self key = Some (ts, d) \<and> real_of_int (ttl self) \<le> now - ts \<longrightarrow>
        cache (snd (get self key now)) key = None
        \<and> get (snd (get self key now)) key now' = (None, snd (get self key now)))"
  by (auto simp: get_def split: option.splits)

theorem get_frame_witness:
  "cache (snd (get stocked ''AAPL'' 3700)) ''MSFT'' = cache stocked ''MSFT''
   \<and> snd (get stocked ''AAPL'' 3699) = stocked
   \<and> snd (get stocked ''GOOG'' 3700) = stocked
   \<and> cache (snd (get stocked ''AAPL'' 3700)) ''AAPL'' = None
   \<and> get (snd (get stocked ''AAPL'' 3700)) ''AAPL'' 3701
        = (None, snd (get stocked ''AAPL'' 3700))"
proof -
  have e: "cache stocked ''AAPL'' = Some (100, 7)" by (simp add: stocked_def)
  have a: "cache stocked ''GOOG'' = None" by (simp add: stocked_def)
  have f: "(3699::real) - 100 < real_of_int (ttl stocked)" by (simp add: stocked_def)
  have x: "real_of_int (ttl stocked) \<le> (3700::real) - 100" by (simp add: stocked_def)
  have n: "''MSFT'' \<noteq> ''AAPL''" by simp
  from get_frame [of "''MSFT''" "''AAPL''" stocked 3700 3701] n e x
  have 1: "cache (snd (get stocked ''AAPL'' 3700)) ''MSFT'' = cache stocked ''MSFT''
     \<and> cache (snd (get stocked ''AAPL'' 3700)) ''AAPL'' = None
     \<and> get (snd (get stocked ''AAPL'' 3700)) ''AAPL'' 3701
          = (None, snd (get stocked ''AAPL'' 3700))"
    by blast
  from get_frame [of "''MSFT''" "''AAPL''" stocked 3699 3701] e f
  have 2: "snd (get stocked ''AAPL'' 3699) = stocked" by blast
  from get_frame [of "''MSFT''" "''GOOG''" stocked 3700 3701] a
  have 3: "snd (get stocked ''GOOG'' 3700) = stocked" by blast
  from 1 2 3 show ?thesis by blast
qed

subsection \<open>The rate limiter\<close>

lemma throttle_ge_now: "now \<le> throttle st now"
  by (simp add: throttle_def sleep_def Let_def)

lemma throttle_ge_last: "last_called st + min_interval st \<le> throttle st now"
  by (simp add: throttle_def sleep_def Let_def)

lemma wrapper_returns:
  "func args (throttle st now) = (Inr r, left) \<Longrightarrow>
   wrapper func args (st, now) = (Inr r, st\<lparr>last_called := left\<rparr>, left)"
  by (simp add: wrapper_def)

lemma wrapper_raises:
  "func args (throttle st now) = (Inl e, left) \<Longrightarrow>
   wrapper func args (st, now) = (Inl e, st, left)"
  by (simp add: wrapper_def)

lemma throttle_blocks:
  "throttle st now =
     (if now - last_called st < min_interval st
      then now + (min_interval st - (now - last_called st)) else now)"
  by (simp add: throttle_def sleep_def Let_def)

lemma next_call_waits_after_return:
  assumes "wrapper func args (st, now) = (Inr result, st', left)"
  shows "min_interval st' = min_interval st \<and> left + min_interval st \<le> throttle st' later"
proof -
  obtain outcome t where f: "func args (throttle st now) = (outcome, t)"
    by (cases "func args (throttle st now)")
  with assms have "st' = st\<lparr>last_called := left\<rparr>"
    by (cases outcome) (auto simp: wrapper_def)
  then show ?thesis using throttle_ge_last [of st' later] by simp
qed

lemma invocations_spacing:
  assumes mono: "\<forall>a t. t \<le> snd (func a t)"
      and gaps: "\<forall>c \<in> set calls. 0 \<le> fst c"
      and ret: "all_return func calls (st, now)"
      and run: "invocations func calls (st, now) = (starts, st', now')"
  shows "length starts = length calls
       \<and> min_interval st' = min_interval st
       \<and> now \<le> now'
       \<and> (\<forall>t \<in> set starts. now \<le> t \<and> last_called st + min_interval st \<le> t)
       \<and> successively (\<lambda>x y. min_interval st \<le> y - x) starts
       \<and> (calls \<noteq> [] \<longrightarrow> hd starts + real (length calls - 1) * min_interval st \<le> now')"
  using gaps ret run
proof (induction calls arbitrary: st now starts)
  case Nil
  then show ?case by simp
next
  case (Cons c calls)
  obtain idle args where c: "c = (idle, args)" by (cases c)
  define entered where "entered = throttle st (now + idle)"
  obtain outcome left where f: "func args entered = (outcome, left)" by (cases "func args entered")
  have w0: "wrapper func args (st, now + idle) =
      (case outcome of Inl exn \<Rightarrow> (Inl exn, st, left)
       | Inr result \<Rightarrow> (Inr result, st\<lparr>last_called := left\<rparr>, left))"
    using f by (simp add: wrapper_def entered_def)
  from Cons.prems(2) c w0 obtain r where r: "outcome = Inr r"
    by (cases outcome) simp_all
  have w: "wrapper func args (st, now + idle) = (Inr r, st\<lparr>last_called := left\<rparr>, left)"
    using w0 r by simp
  have ret': "all_return func calls (st\<lparr>last_called := left\<rparr>, left)"
    using Cons.prems(2) c w by simp
  obtain rest s2 where rec: "invocations func calls (st\<lparr>last_called := left\<rparr>, left) = (rest, s2)"
    by (cases "invocations func calls (st\<lparr>last_called := left\<rparr>, left)")
  from Cons.prems(3) c w rec have res: "starts = entered # rest" "s2 = (st', now')"
    by (simp_all add: entered_def Let_def)
  have idle: "0 \<le> idle" using Cons.prems(1) c by simp
  have e1: "now \<le> entered" using throttle_ge_now [of "now + idle" st] idle by (simp add: entered_def)
  have e2: "last_called st + min_interval st \<le> entered"
    using throttle_ge_last [of st "now + idle"] by (simp add: entered_def)
  have e3: "entered \<le> left" using mono f by (metis snd_conv)
  have gaps': "\<forall>c \<in> set calls. 0 \<le> fst c" using Cons.prems(1) by simp
  from Cons.IH [OF gaps' ret' rec [unfolded res(2)]]
  have ih: "length rest = length calls" "min_interval st' = min_interval st" "left \<le> now'"
    "\<forall>t \<in> set rest. left \<le> t \<and> left + min_interval st \<le> t"
    "successively (\<lambda>x y. min_interval st \<le> y - x) rest"
    "calls \<noteq> [] \<longrightarrow> hd rest + real (length calls - 1) * min_interval st \<le> now'"
    by simp_all
  have a: "\<forall>t \<in> set starts. now \<le> t \<and> last_called st + min_interval st \<le> t"
    using res(1) e1 e2 e3 ih(4) by auto
  have b: "successively (\<lambda>x y. min_interval st \<le> y - x) starts"
  proof (cases rest)
    case Nil
    then show ?thesis using res(1) by simp
  next
    case (Cons x xs)
    then have "left + min_interval st \<le> x" using ih(4) by simp
    with e3 have "min_interval st \<le> x - entered" by simp
    with Cons ih(5) res(1) show ?thesis by simp
  qed
  have d: "hd starts + real (length (c # calls) - 1) * min_interval st \<le> now'"
  proof (cases calls)
    case Nil
    then show ?thesis using res(1) e3 ih(3) by simp
  next
    case (Cons c' cs)
    then obtain x xs where rx: "rest = x # xs" using ih(1) by (cases rest) auto
    have n: "length calls = Suc (length cs)" using Cons by simp
    have "left + min_interval st \<le> x" using rx ih(4) by simp
    moreover have "x + real (length cs) * min_interval st \<le> now'"
      using ih(6) n rx Cons by simp
    ultimately have "entered + min_interval st + real (length cs) * min_interval st \<le> now'"
      using e3 by linarith
    then have "entered + real (Suc (length cs)) * min_interval st \<le> now'"
      by (simp only: of_nat_Suc distrib_right mult_1 add.assoc)
    then show ?thesis using res(1) n by simp
  qed
  show ?case using res(1) ih(1,2,3) a b d e1 e3 by simp
qed

text \<open>
  On the return path the limiter keeps the calls apart: for a positive rate \<open>N\<close> and a
  sequence of invocations that all return normally, two consecutive invocations never
  enter the operation closer together than \<open>1 / N\<close>, and \<open>M\<close> invocations take at
  least \<open>(M - 1) / N\<close> seconds. The operation may be one that raises on other arguments.
\<close>

lemma spacing_when_calls_return:
  assumes rate: "0 < N"
      and deco: "decorator N = Inr st"
      and mono: "\<forall>a t. t \<le> snd (func a t)"
      and gaps: "\<forall>c \<in> set calls. 0 \<le> fst c"
      and ret: "all_return func calls (st, now)"
      and run: "invocations func calls (st, now) = (starts, st', now')"
  shows "min_interval st = 1 / real_of_int N
       \<and> throttle st now =
           (if now - last_called st < min_interval st
            then now + (min_interval st - (now - last_called st)) else now)
       \<and> length starts = length calls
       \<and> (\<forall>i. Suc i < length starts \<longrightarrow> 1 / real_of_int N \<le> starts ! Suc i - starts ! i)
       \<and> (real (length calls) - 1) / real_of_int N \<le> now' - now"
proof -
  have mi: "min_interval st = 1 / real_of_int N"
    using rate deco by (auto simp: decorator_def)
  note sp = invocations_spacing [OF mono gaps ret run]
  have len: "length starts = length calls" using sp by simp
  have succ: "successively (\<lambda>x y. min_interval st \<le> y - x) starts" using sp by simp
  have nth: "\<forall>i. Suc i < length starts \<longrightarrow> 1 / real_of_int N \<le> starts ! Suc i - starts ! i"
    using succ mi by (simp add: successively_conv_nth)
  have total: "(real (length calls) - 1) / real_of_int N \<le> now' - now"
  proof (cases calls)
    case Nil
    then have "now' = now" using run by simp
    moreover have "(real (length calls) - 1) / real_of_int N \<le> 0"
      using Nil rate by simp
    ultimately show ?thesis by simp
  next
    case (Cons c cs)
    then have ne: "calls \<noteq> []" by simp
    then have "starts \<noteq> []" using len by auto
    then have "hd starts \<in> set starts" by simp
    then have "now \<le> hd starts" using sp by blast
    moreover have "hd starts + real (length calls - 1) * min_interval st \<le> now'"
      using sp ne by blast
    moreover have "real (length calls - 1) = real (length calls) - 1" using Cons by simp
    ultimately show ?thesis using mi by simp
  qed
  from mi len nth total throttle_blocks [of st now] show ?thesis by simp
qed

lemma spacing_when_calls_return_example:
  "all_return flaky [(0, 1), (0, 2), (0, 3)] (ten_per_second, 100)
   \<and> invocations flaky [(0, 1), (0, 2), (0, 3)] (ten_per_second, 100)
     = ([100, 10011 / 100, 10022 / 100],
        \<lparr>last_called = 10023 / 100, min_interval = 1 / 10\<rparr>, 10023 / 100)"
  by (simp add: wrapper_def throttle_def sleep_def flaky_def ten_per_second_def Let_def)

text \<open>
  Claim C3. The limiter should never let two invocations of the wrapped operation start
  closer together than \<open>min_interval = 1 / N\<close>, so that \<open>M\<close> back-to-back
  invocations take at least \<open>(M - 1) / N\<close> seconds. The code does not keep this when a
  call raises: at ten calls per second \<open>flaky\<close> raises in the first of two back-to-back
  calls, the second call enters the operation a hundredth of a second after the first,
  and both are over after two hundredths, less than the tenth of a second required.
\<close>

theorem raising_call_breaks_spacing:
  "decorator 10 = Inr ten_per_second
   \<and> invocations flaky [(0, 0), (0, 1)] (ten_per_second, 100)
      = ([100, 10001 / 100], \<lparr>last_called = 10002 / 100, min_interval = 1 / 10\<rparr>, 10002 / 100)
   \<and> \<not> (min_interval ten_per_second \<le> 10001 / 100 - 100)
   \<and> \<not> ((real (length [(0::real, 0::nat), (0, 1)]) - 1) / real_of_int 10 \<le> 10002 / 100 - (100::real))"
  by (simp add: decorator_def ten_per_second_def wrapper_def throttle_def sleep_def flaky_def Let_def)

text \<open>
  Claim C2. When the wrapped operation raises, \<open>last_called\<close> should still be set to
  the time of that attempt, so that the failing call uses up its slot. The code does not
  do this: \<open>flaky\<close> raises in a call entered at the clock 100 and left at 100.01,
  \<open>last_called\<close> is still \<open>0\<close> afterwards, and the call that follows at 100.01 is
  not delayed.
\<close>

theorem raising_call_keeps_last_called:
  "fst (wrapper flaky 0 (ten_per_second, 100)) = Inl ''boom''
   \<and> throttle ten_per_second 100 = 100
   \<and> last_called (fst (snd (wrapper flaky 0 (ten_per_second, 100)))) = 0
   \<and> last_called (fst (snd (wrapper flaky 0 (ten_per_second, 100)))) \<noteq> 100
   \<and> snd (snd (wrapper flaky 0 (ten_per_second, 100))) = 10001 / 100
   \<and> last_called (fst (snd (wrapper flaky 0 (ten_per_second, 100)))) \<noteq> 10001 / 100
   \<and> throttle (fst (snd (wrapper flaky 0 (ten_per_second, 100)))) (10001 / 100) = 10001 / 100"
  by (simp add: ten_per_second_def wrapper_def throttle_def sleep_def flaky_def Let_def)

text \<open>
  Claim C9. Whenever the wrapped operation returns normally on its arguments, the wrapper
  returns the very value the operation returned: the arguments are handed over as they
  are, and apart from the delay nothing is changed on the way back.
\<close>

theorem wrapper_transparent:
  assumes "fst (func args (throttle st now)) = Inr result"
  shows "fst (wrapper func args (st, now)) = Inr result
       \<and> fst (wrapper func args (st, now)) = fst (func args (throttle st now))"
  using assms by (cases "func args (throttle st now)") (simp add: wrapper_def)

theorem wrapper_transparent_witness:
  "fst (steady 21 (throttle ten_per_second 100)) = Inr 42
   \<and> fst (wrapper steady 21 (ten_per_second, 100)) = Inr 42"
proof -
  have h: "fst (steady 21 (throttle ten_per_second 100)) = Inr 42"
    by (simp add: steady_def)
  from wrapper_transparent [of steady 21 ten_per_second 100 42, OF h] h show ?thesis by simp
qed

subsection \<open>The retrying transport\<close>

lemma send_once:
  "\<not> (retryable p (transport n) \<and> verb \<in> set eligible) \<Longrightarrow>
   send p eligible verb transport n replies waits =
     (if is_error (transport n) then Inl (NotRetried (transport n)) else Inr (transport n),
      replies @ [transport n], waits)"
  by (subst send.simps) (auto simp: Let_def)

lemma send_again:
  "retryable p (transport n) \<Longrightarrow> verb \<in> set eligible \<Longrightarrow> int n < max_attempts p \<Longrightarrow>
   send p eligible verb transport n replies waits =
     send p eligible verb transport (Suc n) (replies @ [transport n])
       (waits @ [backoff_base_seconds p * 2 ^ (n - 1)])"
  by (subst send.simps) (simp add: Let_def)

lemma send_last:
  "retryable p (transport n) \<Longrightarrow> verb \<in> set eligible \<Longrightarrow> \<not> int n < max_attempts p \<Longrightarrow>
   send p eligible verb transport n replies waits =
     (Inl (RetriesExhausted (transport n)), replies @ [transport n], waits)"
  by (subst send.simps) (simp add: Let_def)

lemma send_exhausts:
  assumes bad: "\<forall>k. retryable p (transport k)"
      and el: "verb \<in> set eligible"
      and le: "int n \<le> max_attempts p"
  shows "send p eligible verb transport n replies waits =
           (Inl (RetriesExhausted (transport (nat (max_attempts p)))),
            replies @ map transport [n..<Suc (nat (max_attempts p))],
            waits @ map (\<lambda>k. backoff_base_seconds p * 2 ^ (k - 1)) [n..<nat (max_attempts p)])"
  using le
proof (induction "nat (max_attempts p) - n" arbitrary: n replies waits)
  case 0
  then have n: "n = nat (max_attempts p)" by linarith
  then have "\<not> int n < max_attempts p" by simp
  with bad el have "send p eligible verb transport n replies waits =
      (Inl (RetriesExhausted (transport n)), replies @ [transport n], waits)"
    by (simp add: send_last)
  then show ?case by (simp add: n [symmetric])
next
  case (Suc d)
  then have lt: "int n < max_attempts p" by linarith
  then have lt': "n < nat (max_attempts p)" by linarith
  have d: "d = nat (max_attempts p) - Suc n" using Suc.hyps(2) by simp
  have le': "int (Suc n) \<le> max_attempts p" using lt by simp
  have u1: "[n..<Suc (nat (max_attempts p))] = n # [Suc n..<Suc (nat (max_attempts p))]"
    using lt' by (simp add: upt_conv_Cons)
  have u2: "[n..<nat (max_attempts p)] = n # [Suc n..<nat (max_attempts p)]"
    using lt' by (simp add: upt_conv_Cons)
  have "send p eligible verb transport n replies waits =
      send p eligible verb transport (Suc n) (replies @ [transport n])
        (waits @ [backoff_base_seconds p * 2 ^ (n - 1)])"
    using bad el lt by (simp add: send_again)
  also note Suc.hyps(1) [OF d le']
  finally show ?case by (simp only: u1 u2 list.map append_assoc append_Cons append_Nil)
qed

lemma send_schedule:
  "send p eligible verb transport n replies waits = (out, replies', waits') \<Longrightarrow>
   \<exists>j. replies' = replies @ map transport [n..<Suc (n + j)]
     \<and> waits' = waits @ map (\<lambda>k. backoff_base_seconds p * 2 ^ (k - 1)) [n..<n + j]"
proof (induction p eligible verb transport n replies waits rule: send.induct)
  case (1 p eligible verb transport n replies waits)
  show ?case
  proof (cases "retryable p (transport n) \<and> verb \<in> set eligible \<and> int n < max_attempts p")
    case True
    with "1.prems" have
      "send p eligible verb transport (Suc n) (replies @ [transport n])
         (waits @ [backoff_base_seconds p * 2 ^ (n - 1)]) = (out, replies', waits')"
      by (subst (asm) send.simps) (simp add: Let_def)
    from "1.IH" [OF refl refl _ _ this] True obtain j where
      j: "replies' = (replies @ [transport n]) @ map transport [Suc n..<Suc (Suc n + j)]"
         "waits' = (waits @ [backoff_base_seconds p * 2 ^ (n - 1)])
                   @ map (\<lambda>k. backoff_base_seconds p * 2 ^ (k - 1)) [Suc n..<Suc n + j]"
      by blast
    have "[n..<Suc (n + Suc j)] = n # [Suc n..<Suc (Suc n + j)]"
      by (simp add: upt_conv_Cons)
    moreover have "[n..<n + Suc j] = n # [Suc n..<Suc n + j]"
      by (simp add: upt_conv_Cons)
    ultimately show ?thesis using j by (intro exI [of _ "Suc j"]) simp
  next
    case False
    with "1.prems" have "replies' = replies @ [transport n] \<and> waits' = waits"
      by (subst (asm) send.simps) (auto simp: Let_def split: if_splits)
    then show ?thesis by (intro exI [of _ 0]) simp
  qed
qed

text \<open>
  Claim C1. With at least one attempt allowed, a verb eligible for retries and a
  transport whose every reply is retryable, the transport makes exactly \<open>max_attempts\<close>
  attempts (the first and \<open>max_attempts - 1\<close> retries) and then hands the last reply
  to the caller as a failure.
\<close>

theorem retry_bound:
  assumes "1 \<le> max_attempts p"
      and "verb \<in> set eligible"
      and "\<forall>n. retryable p (transport n)"
  shows "fst (request p eligible verb transport)
           = Inl (RetriesExhausted (transport (nat (max_attempts p))))
       \<and> fst (snd (request p eligible verb transport))
           = map transport [1..<Suc (nat (max_attempts p))]
       \<and> int (length (fst (snd (request p eligible verb transport)))) = max_attempts p
       \<and> length (snd (snd (request p eligible verb transport))) = nat (max_attempts p) - 1"
proof -
  have "int 1 \<le> max_attempts p" using assms(1) by simp
  from send_exhausts [OF assms(3) assms(2) this, of "[]" "[]"]
  show ?thesis using assms(1) by (simp add: request_def)
qed

theorem retry_bound_witness:
  "fst (request three_attempts (allowed_methods retry_strategy) ''GET'' always_503)
      = Inl (RetriesExhausted (Status 503))
   \<and> fst (snd (request three_attempts (allowed_methods retry_strategy) ''GET'' always_503))
      = [Status 503, Status 503, Status 503]
   \<and> int (length (fst (snd (request three_attempts (allowed_methods retry_strategy) ''GET'' always_503)))) = 3"
proof -
  have a: "1 \<le> max_attempts three_attempts" by (simp add: three_attempts_def)
  have b: "''GET'' \<in> set (allowed_methods retry_strategy)" by (simp add: retry_strategy_def)
  have c: "\<forall>n. retryable three_attempts (always_503 n)"
    by (simp add: retryable_def three_attempts_def always_503_def retry_strategy_def)
  have e: "always_503 (nat (max_attempts three_attempts)) = Status 503"
    by (simp add: always_503_def)
  have u: "map always_503 [1..<Suc (nat (max_attempts three_attempts))]
             = [Status 503, Status 503, Status 503]"
    by (simp add: three_attempts_def always_503_def upt_conv_Cons)
  have m: "max_attempts three_attempts = 3" by (simp add: three_attempts_def)
  from retry_bound [OF a b c] show ?thesis
    by (simp only: e u) (simp add: m)
qed

lemma request_schedule:
  assumes "request p eligible verb transport = (out, replies, waits)"
  shows "length replies = Suc (length waits)
       \<and> (\<forall>i < length waits. waits ! i = backoff_base_seconds p * 2 ^ i)"
proof -
  from assms send_schedule [of p eligible verb transport 1 "[]" "[]" out replies waits]
  obtain j where j: "replies = map transport [1..<Suc (1 + j)]"
    "waits = map (\<lambda>k. backoff_base_seconds p * 2 ^ (k - 1)) [1..<1 + j]"
    by (auto simp: request_def)
  have "[1..<1 + j] ! i = 1 + i" if "i < j" for i
    using that by (simp del: upt_Suc)
  then show ?thesis using j by (simp del: upt_Suc)
qed

lemma request_429_429_200:
  assumes "transport 1 = Status 429" "transport 2 = Status 429" "transport 3 = Status 200"
      and "429 \<in> retryable_status_codes p" "200 \<notin> retryable_status_codes p"
      and "verb \<in> set eligible" "3 \<le> max_attempts p"
  shows "request p eligible verb transport =
           (Inr (Status 200), [Status 429, Status 429, Status 200],
            [backoff_base_seconds p, backoff_base_seconds p * 2])"
proof -
  have t: "transport (Suc 0) = Status 429" "transport (Suc (Suc 0)) = Status 429"
    "transport (Suc (Suc (Suc 0))) = Status 200"
    using assms(1,2,3) by (simp_all add: numeral_2_eq_2 numeral_3_eq_3)
  have a: "int (Suc 0) < max_attempts p" "int (Suc (Suc 0)) < max_attempts p"
    using assms(7) by simp_all
  have "send p eligible verb transport (Suc 0) [] []
          = send p eligible verb transport (Suc (Suc 0)) [Status 429] [backoff_base_seconds p]"
    using send_again [of p transport "Suc 0" verb eligible "[]" "[]"] t a assms(4,6)
    by (simp add: retryable_def)
  also have "\<dots> = send p eligible verb transport (Suc (Suc (Suc 0))) [Status 429, Status 429]
          [backoff_base_seconds p, backoff_base_seconds p * 2]"
    using send_again [of p transport "Suc (Suc 0)" verb eligible "[Status 429]" "[backoff_base_seconds p]"]
      t a assms(4,6)
    by (simp add: retryable_def)
  also have "\<dots> = (Inr (Status 200), [Status 429, Status 429, Status 200],
          [backoff_base_seconds p, backoff_base_seconds p * 2])"
    using send_once [of p transport "Suc (Suc (Suc 0))" verb eligible "[Status 429, Status 429]"
        "[backoff_base_seconds p, backoff_base_seconds p * 2]"] t assms(5)
    by (simp add: retryable_def is_error_def)
  finally show ?thesis by (simp add: request_def)
qed

text \<open>
  Claim C6. Every wait follows a failed attempt: there is none before the first attempt,
  and the wait after the failed attempt \<open>n\<close> (counted from 1) is
  \<open>backoff_base_seconds * 2 ^ (n - 1)\<close>. Hence a transport that answers 429 twice and
  then 200 succeeds at the third attempt, after waits that add up to
  \<open>backoff_base_seconds * (1 + 2)\<close>, three times the base.
\<close>

theorem backoff_schedule:
  "(request p eligible verb transport = (out, replies, waits) \<longrightarrow>
      length waits = length replies - 1
      \<and> (\<forall>n. 1 \<le> n \<and> n \<le> length waits \<longrightarrow>
            waits ! (n - 1) = backoff_base_seconds p * 2 ^ (n - 1)))
   \<and> (transport 1 = Status 429 \<and> transport 2 = Status 429 \<and> transport 3 = Status 200
      \<and> 429 \<in> retryable_status_codes p \<and> 200 \<notin> retryable_status_codes p
      \<and> verb \<in> set eligible \<and> 3 \<le> max_attempts p \<longrightarrow>
        fst (request p eligible verb transport) = Inr (Status 200)
      \<and> fst (snd (request p eligible verb transport)) = [Status 429, Status 429, Status 200]
      \<and> sum_list (snd (snd (request p eligible verb transport))) = backoff_base_seconds p * (1 + 2)
      \<and> backoff_base_seconds p * 3 \<le> sum_list (snd (snd (request p eligible verb transport))))"
proof (intro conjI impI)
  assume r: "request p eligible verb transport = (out, replies, waits)"
  from request_schedule [OF r] show "length waits = length replies - 1" by simp
  from request_schedule [OF r]
  show "\<forall>n. 1 \<le> n \<and> n \<le> length waits \<longrightarrow> waits ! (n - 1) = backoff_base_seconds p * 2 ^ (n - 1)"
    by auto
next
  assume s: "transport 1 = Status 429 \<and> transport 2 = Status 429 \<and> transport 3 = Status 200
      \<and> 429 \<in> retryable_status_codes p \<and> 200 \<notin> retryable_status_codes p
      \<and> verb \<in> set eligible \<and> 3 \<le> max_attempts p"
  then have e: "request p eligible verb transport =
           (Inr (Status 200), [Status 429, Status 429, Status 200],
            [backoff_base_seconds p, backoff_base_seconds p * 2])"
    by (intro request_429_429_200) simp_all
  show "fst (request p eligible verb transport) = Inr (Status 200)" by (simp add: e)
  show "fst (snd (request p eligible verb transport)) = [Status 429, Status 429, Status 200]"
    by (simp add: e)
  show "sum_list (snd (snd (request p eligible verb transport))) = backoff_base_seconds p * (1 + 2)"
    by (simp add: e)
  show "backoff_base_seconds p * 3 \<le> sum_list (snd (snd (request p eligible verb transport)))"
    by (simp add: e)
qed

theorem backoff_schedule_witness:
  "fst (request three_attempts (allowed_methods retry_strategy) ''GET'' twice_429) = Inr (Status 200)
   \<and> fst (snd (request three_attempts (allowed_methods retry_strategy) ''GET'' twice_429))
        = [Status 429, Status 429, Status 200]
   \<and> sum_list (snd (snd (request three_attempts (allowed_methods retry_strategy) ''GET'' twice_429))) = 3
   \<and> length (snd (snd (request three_attempts (allowed_methods retry_strategy) ''GET'' twice_429))) = 2
   \<and> snd (snd (request three_attempts (allowed_methods retry_strategy) ''GET'' twice_429)) ! 1 = 2"
proof -
  have t: "twice_429 1 = Status 429 \<and> twice_429 2 = Status 429 \<and> twice_429 3 = Status 200
      \<and> 429 \<in> retryable_status_codes three_attempts \<and> 200 \<notin> retryable_status_codes three_attempts
      \<and> ''GET'' \<in> set (allowed_methods retry_strategy) \<and> 3 \<le> max_attempts three_attempts"
    by (simp add: twice_429_def three_attempts_def retry_strategy_def)
  have b: "backoff_base_seconds three_attempts = 1"
    by (simp add: three_attempts_def retry_strategy_def)
  obtain out replies waits where
    r: "request three_attempts (allowed_methods retry_strategy) ''GET'' twice_429 = (out, replies, waits)"
    by (cases "request three_attempts (allowed_methods retry_strategy) ''GET'' twice_429")
  note th = backoff_schedule [of three_attempts "allowed_methods retry_strategy" "''GET''" twice_429
      out replies waits]
  from th t have 1: "fst (request three_attempts (allowed_methods retry_strategy) ''GET'' twice_429) = Inr (Status 200)
    \<and> fst (snd (request three_attempts (allowed_methods retry_strategy) ''GET'' twice_429))
        = [Status 429, Status 429, Status 200]
    \<and> sum_list (snd (snd (request three_attempts (allowed_methods retry_strategy) ''GET'' twice_429)))
        = backoff_base_seconds three_attempts * (1 + 2)"
    by blast
  from th r have 2: "length waits = length replies - 1"
    "\<forall>n. 1 \<le> n \<and> n \<le> length waits \<longrightarrow> waits ! (n - 1) = backoff_base_seconds three_attempts * 2 ^ (n - 1)"
    by blast+
  from 1 r have "replies = [Status 429, Status 429, Status 200]" by simp
  with 2(1) have l: "length waits = 2" by simp
  with 2(2) have "waits ! (2 - 1) = backoff_base_seconds three_attempts * 2 ^ (2 - 1)"
    by (metis one_le_numeral order_refl)
  then have "waits ! 1 = 2" by (simp add: b)
  with 1 l r show ?thesis by (simp add: b)
qed



subsection \<open>The fetch orchestrator\<close>










end
